theory Spec2Isabelle
  imports Complex_Main "HOL-Library.Sublist"
begin

section \<open>config.py: the constants the claims refer to\<close>

definition CLASS_NAMES :: "string list" where
  "CLASS_NAMES =
    [''animals'', ''barriers'', ''busstop'', ''cables'', ''clear_path'',
     ''construction_site'', ''crosswalk'', ''doors'', ''elevators'', ''fire'',
     ''fire_exits'', ''potholes'', ''slippery_surface'', ''speed_bumps'',
     ''staircases'', ''streetlight_poles'', ''traffic_lights'', ''trash_bins'',
     ''vehicles'', ''walls'']"

definition TOP_K :: int where
  "TOP_K = 3"

definition CONFIDENCE_THRESHOLD :: rat where
  "CONFIDENCE_THRESHOLD = 5"

definition WS_MAX_MESSAGE_BYTES :: int where
  "WS_MAX_MESSAGE_BYTES = 2 * 1024 * 1024"

definition ALLOWED_MIME_TYPES :: "string set" where
  "ALLOWED_MIME_TYPES =
    {''image/jpeg'', ''image/png'', ''image/gif'', ''image/bmp'', ''image/webp''}"

definition MAX_UPLOAD_BYTES :: int where
  "MAX_UPLOAD_BYTES = 10 * 1024 * 1024"

section \<open>model_worker.py: post-processing of the confidence vector\<close>

text \<open>
  Numbers. The classifier returns float32 values; \<open>float(raw[idx])\<close> widens one to a
  double without change, and the product with 100 is exact in double arithmetic (a 24-bit
  significand times 25 * 4 needs at most 29 bits). Python's \<open>round(x, 2)\<close> rounds the
  exact value of \<open>x\<close> to two decimals, ties to even, and returns the double nearest to
  that decimal; the comparison with 5.0 is monotone in it. So finite confidences are
  modelled as rationals, and the reported confidence as the two-decimal rational that
  Python prints. NaN and infinities are outside this model.
\<close>

type_synonym bytes = "nat list"
type_synonym prediction = "(string \<times> rat) list"

datatype error = IndexError | TypeError | ValueError | ClassifierError string

definition round_half_even :: "rat \<Rightarrow> int" where
  "round_half_even x =
    (let f = \<lfloor>x\<rfloor>; d = x - of_int f
     in if d < 1 / 2 then f
        else if 1 / 2 < d then f + 1
        else if even f then f else f + 1)"

definition py_round2 :: "rat \<Rightarrow> rat" where
  \<comment> \<open>\<open>round(x, 2)\<close>\<close>
  "py_round2 x = of_int (round_half_even (x * 100)) / 100"

definition ascending_argsort :: "rat list \<Rightarrow> nat list \<Rightarrow> bool" where
  \<comment> \<open>What numpy documents of \<open>raw.argsort()\<close>: the indices of \<open>raw\<close>, each once, in
      ascending order of the values. The code asks for the default sort, which numpy
      documents as not stable: nothing is said of the order of equal values.\<close>
  "ascending_argsort raw order \<longleftrightarrow>
     distinct order \<and> set order = {0..<length raw} \<and> sorted (map (\<lambda>i. raw ! i) order)"

definition stable_argsort :: "rat list \<Rightarrow> nat list" where
  \<comment> \<open>One such order, the one a stable sort returns (equal values stay in index order).
      It is the sort the spec supposes; the examples use it where an order is needed.\<close>
  "stable_argsort raw = sort_key (\<lambda>i. raw ! i) [0..<length raw]"

definition neg_slice :: "int \<Rightarrow> 'a list \<Rightarrow> 'a list" where
  \<comment> \<open>Python's \<open>xs[-k:]\<close>: the last \<open>k\<close> elements for \<open>k > 0\<close> (all of them when there
      are fewer), the whole list for \<open>k = 0\<close>, and \<open>xs[|k|:]\<close> for \<open>k < 0\<close>.\<close>
  "neg_slice k xs = drop (if 0 < k then length xs - nat k else nat (- k)) xs"

definition top_indices :: "int \<Rightarrow> nat list \<Rightarrow> nat list" where
  \<comment> \<open>\<open>order[-TOP_K:][::-1]\<close>, for \<open>order = raw.argsort()\<close>\<close>
  "top_indices k order = rev (neg_slice k order)"

fun format_results ::
  "string list \<Rightarrow> rat \<Rightarrow> rat list \<Rightarrow> nat list \<Rightarrow> prediction \<Rightarrow> error + prediction" where
  "format_results labels thr raw [] results = Inr results"
| "format_results labels thr raw (idx # rest) results =
    (let confidence = py_round2 (raw ! idx * 100)
     in if thr \<le> confidence
        then (if idx < length labels
              then format_results labels thr raw rest (results @ [(labels ! idx, confidence)])
              else Inl IndexError)
        else format_results labels thr raw rest results)"

definition postprocess ::
  "string list \<Rightarrow> int \<Rightarrow> rat \<Rightarrow> rat list \<Rightarrow> nat list \<Rightarrow> error + prediction" where
  \<comment> \<open>The body of \<open>_predict_sync\<close> after the classifier call, with the three constants
      of config.py as arguments; \<open>order\<close> is what \<open>raw.argsort()\<close> returned.\<close>
  "postprocess labels k thr raw order =
     format_results labels thr raw (top_indices k order) []"

definition predict_sync ::
  "(rat list \<Rightarrow> nat list) \<Rightarrow> (bytes \<Rightarrow> error + rat list) \<Rightarrow> bytes \<Rightarrow> error + prediction" where
  \<comment> \<open>\<open>argsort\<close> stands for numpy's \<open>ndarray.argsort\<close> and \<open>classify\<close> for
      \<open>_model.predict(_preprocess(image_bytes))[0]\<close>: both are library code; the image
      decoder and the network may raise.\<close>
  "predict_sync argsort classify image_bytes =
    (case classify image_bytes of
       Inl e \<Rightarrow> Inl e
     | Inr raw \<Rightarrow> postprocess CLASS_NAMES TOP_K CONFIDENCE_THRESHOLD raw (argsort raw))"

definition before :: "rat list \<Rightarrow> nat \<Rightarrow> nat \<Rightarrow> bool" where
  \<comment> \<open>The order of the indices under a stable ascending sort: by value, and by index
      among equal values.\<close>
  "before raw i j \<longleftrightarrow> raw ! i < raw ! j \<or> (raw ! i = raw ! j \<and> i < j)"

section \<open>model_worker.py: the check at import time\<close>

definition check_output_shape :: "int option list \<Rightarrow> error + unit" where
  \<comment> \<open>\<open>if _model.output_shape[-1] != len(CLASS_NAMES): raise ValueError(...)\<close>.
      A Keras shape is a tuple of dimensions, some of them \<open>None\<close>.\<close>
  "check_output_shape output_shape =
    (if output_shape = [] then Inl IndexError
     else if last output_shape \<noteq> Some (int (length CLASS_NAMES)) then Inl ValueError
     else Inr ())"

definition make_executor :: "int \<Rightarrow> error + unit" where
  \<comment> \<open>\<open>ThreadPoolExecutor(max_workers=MAX_INFERENCE_WORKERS)\<close>, which refuses a
      worker count below one.\<close>
  "make_executor max_workers = (if max_workers \<le> 0 then Inl ValueError else Inr ())"

definition model_worker_init :: "error + int option list \<Rightarrow> int \<Rightarrow> error + unit" where
  \<comment> \<open>The module body of model_worker.py, in statement order: \<open>load_model\<close> (its
      outcome is the first argument), the shape check, the executor.\<close>
  "model_worker_init loaded max_workers =
    (case loaded of
       Inl e \<Rightarrow> Inl e
     | Inr output_shape \<Rightarrow>
         (case check_output_shape output_shape of
            Inl e \<Rightarrow> Inl e
          | Inr _ \<Rightarrow> make_executor max_workers))"

datatype server = Serving

definition main_start :: "error + int option list \<Rightarrow> int \<Rightarrow> error + server" where
  \<comment> \<open>main.py imports model_worker before it builds the routes and calls
      \<open>uvicorn.run\<close>; an exception of the import ends the process.\<close>
  "main_start loaded max_workers =
    (case model_worker_init loaded max_workers of
       Inl e \<Rightarrow> Inl e
     | Inr _ \<Rightarrow> Inr Serving)"

section \<open>main.py: POST /predict-image\<close>

record upload =
  content_type :: "string option"
  filename :: string
  contents :: bytes

datatype http_body = ErrorBody string | PredictionBody string prediction

record http_response =
  status_code :: nat
  body :: http_body

definition unsupported_type_message :: "string option \<Rightarrow> string" where
  \<comment> \<open>\<open>f"Unsupported type '{file.content_type}'."\<close>\<close>
  "unsupported_type_message ct =
    ''Unsupported type '' @ [CHR 0x27] @ (case ct of None \<Rightarrow> ''None'' | Some t \<Rightarrow> t)
      @ [CHR 0x27] @ ''.''"

definition predict_image ::
  "(bytes \<Rightarrow> string + prediction) \<Rightarrow> upload \<Rightarrow> http_response \<times> bytes list" where
  \<comment> \<open>The first argument is \<open>run_inference\<close> (\<open>Inl m\<close>: it raised, with
      \<open>str(e) = m\<close>). The second component of the result lists the arguments of the
      calls of \<open>run_inference\<close> this request made.\<close>
  "predict_image run_inference file =
    (if content_type file \<notin> Some ` ALLOWED_MIME_TYPES
     then (\<lparr>status_code = 400,
            body = ErrorBody (unsupported_type_message (content_type file))\<rparr>, [])
     else if MAX_UPLOAD_BYTES < int (length (contents file))
     then (\<lparr>status_code = 400, body = ErrorBody ''File too large.''\<rparr>, [])
     else (case run_inference (contents file) of
             Inr predictions \<Rightarrow>
               (\<lparr>status_code = 200, body = PredictionBody (filename file) predictions\<rparr>,
                [contents file])
           | Inl e \<Rightarrow>
               (\<lparr>status_code = 400, body = ErrorBody e\<rparr>, [contents file])))"

section \<open>main.py: the WebSocket endpoint /ws/predict\<close>

text \<open>
  \<open>ws_predict\<close> runs two coroutines on one asyncio thread: the handler, which receives
  messages and writes the mailbox \<open>pending_frame[0]\<close>, and the task \<open>_inference_loop\<close>,
  which empties it. Control changes hands only at an \<open>await\<close>, so the code between two
  awaits is one atomic step. The state records where each coroutine is suspended; an
  event is the completion of the awaited operation, chosen by the environment. An event
  whose coroutine is not waiting for it leaves the state unchanged.
\<close>

subsection \<open>What the libraries compute\<close>

datatype json =
  JNull | JBool bool | JNum rat | JStr string | JArr "json list" | JObj "(string \<times> json) list"

record pylib =
  json_loads :: "string \<Rightarrow> json option"
  b64decode :: "string \<Rightarrow> bytes option"
  run_inference :: "bytes \<Rightarrow> string + prediction"

text \<open>
  A \<open>JObj\<close> is the dict \<open>json.loads\<close> built, one pair for each key.
  \<open>json_loads raw = None\<close> stands for \<open>json.JSONDecodeError\<close>,
  \<open>b64decode s = None\<close> for the exception \<open>base64.b64decode\<close> raises on a string it
  refuses, and \<open>run_inference b = Inl m\<close> for an exception with \<open>str(e) = m\<close>.
\<close>

fun py_contains :: "json \<Rightarrow> string \<Rightarrow> error + bool" where
  \<comment> \<open>Python's \<open>key in msg\<close> for a string \<open>key\<close>: membership among the keys of a dict,
      among the elements of a list, as a substring of a string; a number, a boolean and
      \<open>None\<close> are not iterable and raise TypeError.\<close>
  "py_contains (JObj kvs) key = Inr (key \<in> fst ` set kvs)"
| "py_contains (JArr xs) key = Inr (JStr key \<in> set xs)"
| "py_contains (JStr s) key = Inr (sublist key s)"
| "py_contains JNull key = Inl TypeError"
| "py_contains (JBool b) key = Inl TypeError"
| "py_contains (JNum n) key = Inl TypeError"

fun py_getitem :: "json \<Rightarrow> string \<Rightarrow> json option" where
  \<comment> \<open>\<open>msg[key]\<close>; \<open>None\<close> stands for the KeyError or TypeError it raises.\<close>
  "py_getitem (JObj kvs) key = map_of kvs key"
| "py_getitem other key = None"

fun decode_frame :: "pylib \<Rightarrow> json \<Rightarrow> bytes option" where
  \<comment> \<open>\<open>base64.b64decode(v)\<close> on a value of a JSON document: only a string is accepted.\<close>
  "decode_frame lib (JStr s) = b64decode lib s"
| "decode_frame lib other = None"

subsection \<open>The state of one connection\<close>

type_synonym frame = "nat \<times> bytes"

text \<open>
  The mailbox holds a reference to a bytes object. A frame is modelled as the bytes
  together with the number of its arrival (0 for the first frame stored), which stands
  for the identity of the object; no branch of the model reads the number.
\<close>

datatype reply = PredictionsReply prediction rat | ErrorReply string

datatype loop_pc =
  Polling
  | Inferring frame
  | SendingResult reply
  | SendingError string
  | Finished
  | Cancelled

datatype handler_pc = Receiving | Replying string | Returned | Crashed

record conn =
  pending_frame :: "frame option"
  busy :: bool
  loop :: loop_pc
  handler :: handler_pc
  outbox :: "reply list"
  arrived :: "frame list"
  started :: "frame list"
  completed :: nat

text \<open>
  \<open>pending_frame\<close> and \<open>busy\<close> are the variables of the source. \<open>loop\<close> is the await
  \<open>_inference_loop\<close> is suspended at: the sleep of the polling loop, \<open>run_inference\<close>,
  the \<open>send_json\<close> of a result, the \<open>send_json\<close> of an error; or that it has left by
  \<open>break\<close>, or was cancelled. \<open>handler\<close> is the await of the receiving loop:
  \<open>receive_text\<close>, the \<open>send_json\<close> of an error reply; or that \<open>ws_predict\<close> has
  returned, or was left by an exception. The other fields observe the run: the messages
  delivered to the client, the frames stored in the mailbox, the frames handed to
  \<open>run_inference\<close>, and the number of \<open>run_inference\<close> calls that have returned or
  raised.
\<close>

definition init_conn :: conn where
  "init_conn =
    \<lparr>pending_frame = None, busy = False, loop = Polling, handler = Receiving,
     outbox = [], arrived = [], started = [], completed = 0\<rparr>"

datatype event =
  Recv string
  | Disconnect
  | ReplySent
  | ReplyFailed bool
  | Wake
  | InferDone rat
  | SendDone
  | SendFailed string

text \<open>
  \<open>Recv raw\<close>: \<open>receive_text\<close> returns \<open>raw\<close>. \<open>Disconnect\<close>: it raises
  WebSocketDisconnect. \<open>ReplySent\<close>, \<open>ReplyFailed d\<close>: the handler's \<open>send_json\<close>
  returns, or raises (\<open>d\<close>: the exception is WebSocketDisconnect). \<open>Wake\<close>: the
  loop's sleep ends. \<open>InferDone t\<close>: the \<open>run_inference\<close> call ends, \<open>t\<close> being the
  latency the loop then measures. \<open>SendDone\<close>, \<open>SendFailed m\<close>: the loop's
  \<open>send_json\<close> returns, or raises an exception with \<open>str(e) = m\<close>.
\<close>

subsection \<open>The steps\<close>

definition loop_top :: "conn \<Rightarrow> conn" where
  \<comment> \<open>From the head of \<open>while True\<close> to the next await: sleep while the mailbox is
      empty; otherwise set \<open>busy\<close>, take the frame, empty the mailbox, call
      \<open>run_inference\<close>.\<close>
  "loop_top st =
    (case pending_frame st of
       None \<Rightarrow> st\<lparr>loop := Polling\<rparr>
     | Some frame_bytes \<Rightarrow>
         st\<lparr>busy := True, pending_frame := None, loop := Inferring frame_bytes,
            started := started st @ [frame_bytes]\<rparr>)"

definition cancel_loop :: "conn \<Rightarrow> conn" where
  \<comment> \<open>\<open>loop_task.cancel(); await loop_task\<close>. CancelledError is raised at the await
      the loop is suspended at; inside the \<open>try\<close> it passes \<open>except Exception\<close> and
      runs \<open>finally: busy.clear()\<close>. A loop that has ended is not affected.\<close>
  "cancel_loop st =
    (case loop st of
       Finished \<Rightarrow> st
     | Cancelled \<Rightarrow> st
     | Polling \<Rightarrow> st\<lparr>loop := Cancelled\<rparr>
     | _ \<Rightarrow> st\<lparr>busy := False, loop := Cancelled\<rparr>)"

definition too_large :: "string \<Rightarrow> bool" where
  \<comment> \<open>\<open>len(raw) > WS_MAX_MESSAGE_BYTES * 1.4\<close>. The product is 2936012.8 up to the
      rounding of 1.4, and a length is an integer, so the test is \<open>len(raw) \<ge> 2936013\<close>
      in floating point as in exact arithmetic.\<close>
  "too_large raw \<longleftrightarrow> 14 * WS_MAX_MESSAGE_BYTES < 10 * int (length raw)"

definition on_message :: "pylib \<Rightarrow> string \<Rightarrow> conn \<Rightarrow> conn" where
  \<comment> \<open>The body of the receiving loop for one message, up to its next await.\<close>
  "on_message lib raw st =
    (if too_large raw then st\<lparr>handler := Replying ''Frame too large.''\<rparr>
     else case json_loads lib raw of
       None \<Rightarrow> st\<lparr>handler := Replying ''Invalid JSON.''\<rparr>
     | Some msg \<Rightarrow>
         (case py_contains msg ''frame'' of
            Inl e \<Rightarrow> (cancel_loop st)\<lparr>handler := Crashed\<rparr>
          | Inr False \<Rightarrow> st\<lparr>handler := Replying ''Missing 'frame' key.''\<rparr>
          | Inr True \<Rightarrow>
              (case Option.bind (py_getitem msg ''frame'') (decode_frame lib) of
                 None \<Rightarrow> st\<lparr>handler := Replying ''Invalid base64 in 'frame'.''\<rparr>
               | Some frame_bytes \<Rightarrow>
                   st\<lparr>pending_frame := Some (length (arrived st), frame_bytes),
                      arrived := arrived st @ [(length (arrived st), frame_bytes)]\<rparr>)))"

fun step :: "pylib \<Rightarrow> event \<Rightarrow> conn \<Rightarrow> conn" where
  "step lib (Recv raw) st =
    (if handler st = Receiving then on_message lib raw st else st)"
| "step lib Disconnect st =
    (if handler st = Receiving then (cancel_loop st)\<lparr>handler := Returned\<rparr> else st)"
| "step lib ReplySent st =
    (case handler st of
       Replying m \<Rightarrow> st\<lparr>outbox := outbox st @ [ErrorReply m], handler := Receiving\<rparr>
     | _ \<Rightarrow> st)"
| "step lib (ReplyFailed disconnected) st =
    (case handler st of
       Replying m \<Rightarrow> (cancel_loop st)\<lparr>handler := (if disconnected then Returned else Crashed)\<rparr>
     | _ \<Rightarrow> st)"
| "step lib Wake st =
    (case loop st of Polling \<Rightarrow> loop_top st | _ \<Rightarrow> st)"
| "step lib (InferDone latency) st =
    (case loop st of
       Inferring frame_bytes \<Rightarrow>
         (case run_inference lib (snd frame_bytes) of
            Inr predictions \<Rightarrow>
              st\<lparr>completed := completed st + 1,
                 loop := SendingResult (PredictionsReply predictions latency)\<rparr>
          | Inl e \<Rightarrow> st\<lparr>completed := completed st + 1, loop := SendingError e\<rparr>)
     | _ \<Rightarrow> st)"
| "step lib SendDone st =
    (case loop st of
       SendingResult r \<Rightarrow> loop_top (st\<lparr>outbox := outbox st @ [r], busy := False\<rparr>)
     | SendingError m \<Rightarrow> loop_top (st\<lparr>outbox := outbox st @ [ErrorReply m], busy := False\<rparr>)
     | _ \<Rightarrow> st)"
| "step lib (SendFailed m) st =
    (case loop st of
       SendingResult r \<Rightarrow> st\<lparr>loop := SendingError m\<rparr>
     | SendingError m' \<Rightarrow> st\<lparr>busy := False, loop := Finished\<rparr>
     | _ \<Rightarrow> st)"

definition run :: "pylib \<Rightarrow> event list \<Rightarrow> conn \<Rightarrow> conn" where
  "run lib es st = foldl (\<lambda>s e. step lib e s) st es"

subsection \<open>A fragment of the libraries, for the examples\<close>

definition demo_msg1 :: string where
  \<open>demo_msg1 = ''{"frame": "AQ=="}''\<close>

definition demo_msg2 :: string where
  \<open>demo_msg2 = ''{"frame": "Ag=="}''\<close>

definition demo_lib :: pylib where
  \<comment> \<open>\<open>json.loads\<close> on three texts, \<open>base64.b64decode\<close> on two strings, and
      \<open>run_inference\<close> on byte strings that are not images: the decoder refuses them.\<close>
  "demo_lib =
    \<lparr>json_loads = (\<lambda>raw.
        if raw = demo_msg1 then Some (JObj [(''frame'', JStr ''AQ=='')])
        else if raw = demo_msg2 then Some (JObj [(''frame'', JStr ''Ag=='')])
        else if raw = ''null'' then Some JNull
        else None),
     b64decode = (\<lambda>s.
        if s = ''AQ=='' then Some [1]
        else if s = ''Ag=='' then Some [2]
        else None),
     run_inference = (\<lambda>b. Inl ''cannot identify image file'')\<rparr>"

subsection \<open>The invariant of a connection\<close>

definition mailbox_inv :: "conn \<Rightarrow> bool" where
  \<comment> \<open>Arrivals are numbered in order. A pending frame is the last arrival, and the
      frames picked up come from the arrivals before it; with an empty mailbox the
      frames picked up come from all arrivals and end with the last one.\<close>
  "mailbox_inv st \<longleftrightarrow>
     map fst (arrived st) = [0..<length (arrived st)]
     \<and> (pending_frame st \<noteq> None \<longrightarrow>
          arrived st \<noteq> [] \<and> pending_frame st = Some (last (arrived st))
          \<and> subseq (started st) (butlast (arrived st)))
     \<and> (pending_frame st = None \<longrightarrow>
          subseq (started st) (arrived st)
          \<and> (arrived st = [] \<longrightarrow> started st = [])
          \<and> (arrived st \<noteq> [] \<longrightarrow>
                started st \<noteq> [] \<and> last (started st) = last (arrived st)))"

fun in_try :: "loop_pc \<Rightarrow> bool" where
  \<comment> \<open>The loop is suspended inside its \<open>try\<close> statement.\<close>
  "in_try (Inferring f) = True"
| "in_try (SendingResult r) = True"
| "in_try (SendingError m) = True"
| "in_try other = False"

fun awaiting_inference :: "loop_pc \<Rightarrow> bool" where
  "awaiting_inference (Inferring f) = True"
| "awaiting_inference other = False"

definition loop_inv :: "conn \<Rightarrow> bool" where
  \<comment> \<open>What the position of the loop says about \<open>busy\<close> and about the calls of
      \<open>run_inference\<close> made and ended. A loop cancelled during a call leaves that call
      to the executor.\<close>
  "loop_inv st \<longleftrightarrow>
     (busy st \<longleftrightarrow> in_try (loop st))
     \<and> (if loop st = Cancelled
         then completed st \<le> length (started st) \<and> length (started st) \<le> completed st + 1
         else length (started st) =
                completed st + (if awaiting_inference (loop st) then 1 else 0))"

section \<open>Properties of the post-processing\<close>

lemma round_half_even_bounds: "\<lfloor>x\<rfloor> \<le> round_half_even x \<and> round_half_even x \<le> \<lfloor>x\<rfloor> + 1"
  by (simp add: round_half_even_def Let_def)

lemma round_half_even_mono:
  assumes "x \<le> y"
  shows "round_half_even x \<le> round_half_even y"
proof (cases "\<lfloor>x\<rfloor> = \<lfloor>y\<rfloor>")
  case True
  with assms have "x - of_int \<lfloor>y\<rfloor> \<le> y - of_int \<lfloor>y\<rfloor>" by simp
  with True show ?thesis
    by (auto simp: round_half_even_def Let_def)
next
  case False
  with assms have "\<lfloor>x\<rfloor> + 1 \<le> \<lfloor>y\<rfloor>"
    using floor_mono [OF assms] by linarith
  with round_half_even_bounds [of x] round_half_even_bounds [of y]
  show ?thesis by linarith
qed

lemma py_round2_mono: "x \<le> y \<Longrightarrow> py_round2 x \<le> py_round2 y"
  unfolding py_round2_def
  using round_half_even_mono [of "x * 100" "y * 100"]
  by (simp add: divide_right_mono)

lemma format_results_eq:
  "\<forall>i\<in>set idxs. i < length labels \<Longrightarrow>
   format_results labels thr raw idxs acc =
     Inr (acc @ map (\<lambda>i. (labels ! i, py_round2 (raw ! i * 100)))
                    (filter (\<lambda>i. thr \<le> py_round2 (raw ! i * 100)) idxs))"
  by (induction idxs arbitrary: acc) (auto simp: Let_def)

lemma set_neg_slice: "set (neg_slice k xs) \<subseteq> set xs"
  by (auto simp: neg_slice_def dest: in_set_dropD)

lemma length_neg_slice: "0 < k \<Longrightarrow> length (neg_slice k xs) = min (nat k) (length xs)"
  by (auto simp: neg_slice_def)

lemma ascending_argsort_length: "ascending_argsort raw order \<Longrightarrow> length order = length raw"
  using distinct_card [of order] by (simp add: ascending_argsort_def)

text \<open>The selection: the \<open>k\<close> largest values, largest first.\<close>

lemma top_indices_selection:
  assumes "ascending_argsort raw order" and "0 < k"
  shows "distinct (top_indices k order)"
    and "set (top_indices k order) \<subseteq> {0..<length raw}"
    and "length (top_indices k order) = min (nat k) (length raw)"
    and "\<forall>i\<in>set (top_indices k order). \<forall>j<length raw.
           j \<notin> set (top_indices k order) \<longrightarrow> raw ! j \<le> raw ! i"
    and "sorted_wrt (\<lambda>i j. raw ! j \<le> raw ! i) (top_indices k order)"
proof -
  define m where "m = length order - nat k"
  have t: "top_indices k order = rev (drop m order)"
    using assms(2) by (simp add: top_indices_def neg_slice_def m_def)
  have d: "distinct order" and s: "set order = {0..<length raw}"
    and o: "sorted_wrt (\<lambda>i j. raw ! i \<le> raw ! j) order"
    using assms(1) by (simp_all add: ascending_argsort_def sorted_map)
  show "distinct (top_indices k order)" using d by (simp add: t)
  show "set (top_indices k order) \<subseteq> {0..<length raw}"
    using s set_drop_subset [of m order] by (simp add: t)
  show "length (top_indices k order) = min (nat k) (length raw)"
    using ascending_argsort_length [OF assms(1)] assms(2) by (auto simp: t m_def)
  have "sorted_wrt (\<lambda>i j. raw ! i \<le> raw ! j) (take m order @ drop m order)"
    using o by simp
  then have td: "\<forall>j\<in>set (take m order). \<forall>i\<in>set (drop m order). raw ! j \<le> raw ! i"
    unfolding sorted_wrt_append by blast
  have u: "set order = set (take m order) \<union> set (drop m order)"
    by (metis append_take_drop_id set_append)
  show "\<forall>i\<in>set (top_indices k order). \<forall>j<length raw.
           j \<notin> set (top_indices k order) \<longrightarrow> raw ! j \<le> raw ! i"
  proof (intro ballI allI impI)
    fix i j
    assume i: "i \<in> set (top_indices k order)" and j: "j < length raw"
      and n: "j \<notin> set (top_indices k order)"
    from j s have "j \<in> set order" by simp
    with u n have "j \<in> set (take m order)" by (simp add: t)
    moreover from i have "i \<in> set (drop m order)" by (simp add: t)
    ultimately show "raw ! j \<le> raw ! i" using td by blast
  qed
  show "sorted_wrt (\<lambda>i j. raw ! j \<le> raw ! i) (top_indices k order)"
    using sorted_wrt_drop [OF o, of m] by (simp add: t sorted_wrt_rev)
qed

lemma postprocess_eq:
  assumes "ascending_argsort raw order" and "length raw \<le> length labels"
  shows "postprocess labels k thr raw order =
     Inr (map (\<lambda>i. (labels ! i, py_round2 (raw ! i * 100)))
              (filter (\<lambda>i. thr \<le> py_round2 (raw ! i * 100)) (top_indices k order)))"
proof -
  have "set (top_indices k order) \<subseteq> set order"
    using set_neg_slice [of k order] by (simp add: top_indices_def)
  then have "\<forall>i\<in>set (top_indices k order). i < length labels"
    using assms by (auto simp: ascending_argsort_def)
  then show ?thesis by (simp add: postprocess_def format_results_eq)
qed

lemma predict_sync_eq:
  assumes "classify img = Inr raw" and "length raw = length CLASS_NAMES"
    and "ascending_argsort raw (argsort raw)"
  shows "predict_sync argsort classify img =
     Inr (map (\<lambda>i. (CLASS_NAMES ! i, py_round2 (raw ! i * 100)))
              (filter (\<lambda>i. CONFIDENCE_THRESHOLD \<le> py_round2 (raw ! i * 100))
                      (top_indices TOP_K (argsort raw))))"
  using assms by (simp add: predict_sync_def postprocess_eq)

lemma stable_argsort_ascending: "ascending_argsort raw (stable_argsort raw)"
  by (simp add: ascending_argsort_def stable_argsort_def)

lemma ascending_argsort_unique:
  assumes "distinct raw" and "ascending_argsort raw order"
  shows "order = stable_argsort raw"
proof -
  let ?key = "\<lambda>i. raw ! i"
  let ?st = "stable_argsort raw"
  have a: "ascending_argsort raw ?st" by (rule stable_argsort_ascending)
  have inj: "inj_on ?key {0..<length raw}"
    using assms(1) by (auto simp: inj_on_def nth_eq_iff_index_eq)
  have so: "set order = {0..<length raw}" and ss: "set ?st = {0..<length raw}"
    using assms(2) a by (simp_all add: ascending_argsort_def)
  have "distinct (map ?key order)" "distinct (map ?key ?st)"
    using assms(2) a inj by (simp_all add: ascending_argsort_def distinct_map)
  moreover have "sorted (map ?key order)" "sorted (map ?key ?st)"
    using assms(2) a by (simp_all add: ascending_argsort_def)
  moreover have "set (map ?key order) = set (map ?key ?st)"
    using so ss by simp
  ultimately have "map ?key order = map ?key ?st"
    by (metis sorted_distinct_set_unique)
  moreover have "inj_on ?key (set order \<union> set ?st)" using inj so ss by simp
  ultimately show ?thesis by (simp add: inj_on_map_eq_map)
qed

lemma filter_single: "distinct xs \<Longrightarrow> x \<in> set xs \<Longrightarrow> filter (\<lambda>y. y = x) xs = [x]"
  by (induction xs) (auto simp: filter_empty_conv)

lemma top_indices_reverses:
  assumes "distinct order" and "order = pre @ i # mid @ j # post"
    and "i \<in> set (top_indices k order)"
  shows "\<exists>pre' post'. top_indices k order = pre' @ j # rev mid @ i # post'"
proof -
  define m where "m = (if 0 < k then length order - nat k else nat (- k))"
  have t: "top_indices k order = rev (drop m order)"
    by (simp add: top_indices_def neg_slice_def m_def)
  have "m \<le> length pre"
  proof (rule ccontr)
    assume "\<not> m \<le> length pre"
    then have "drop m order = drop (m - length pre - 1) (mid @ j # post)"
      using assms(2) by (simp add: drop_Cons')
    then have "set (drop m order) \<subseteq> set (mid @ j # post)"
      using set_drop_subset by metis
    moreover have "i \<notin> set (mid @ j # post)" using assms(1,2) by auto
    ultimately show False using assms(3) t by auto
  qed
  then have "drop m order = drop m pre @ i # mid @ j # post"
    using assms(2) by simp
  then have "top_indices k order = rev post @ j # rev mid @ i # rev (drop m pre)"
    by (simp add: t)
  then show ?thesis by blast
qed

text \<open>
  Claim C5. \<open>_predict_sync\<close> returns what the post-processing makes of the confidence
  vector. For every vector as long as the label set (what the check at import time
  establishes) and every order \<open>argsort\<close> may return, the result is not an error: it
  lists, for the \<open>k\<close> indices of largest value that pass the floor, the label at that
  index with \<open>round(value * 100, 2)\<close>; so it has at most \<open>k\<close> entries, in descending
  order of confidence, each at least the floor. With the labels a, b, c, d, K = 3 and
  floor 5.0 the vector [0.81, 0.04, 0.09, 0.87] gives [(d, 87.0), (a, 81.0), (c, 9.0)],
  for the decimal values and for the float32 values nearest to them alike. With
  \<open>CLASS_NAMES\<close>, a vector of twenty values 0.01 gives the empty prediction, not an
  error.
\<close>

theorem predict_sync_prediction_shape:
  "(\<forall>argsort classify img raw.
      classify img = Inr raw \<longrightarrow>
      predict_sync argsort classify img =
        postprocess CLASS_NAMES TOP_K CONFIDENCE_THRESHOLD raw (argsort raw))
   \<and> (\<forall>labels k thr raw order.
        length raw = length labels \<and> 0 < k \<and> ascending_argsort raw order \<longrightarrow>
        (\<exists>sel res.
            postprocess labels k thr raw order = Inr res
          \<and> distinct sel \<and> set sel \<subseteq> {0..<length raw}
          \<and> length sel = min (nat k) (length raw)
          \<and> (\<forall>i\<in>set sel. \<forall>j<length raw. j \<notin> set sel \<longrightarrow> raw ! j \<le> raw ! i)
          \<and> res = map (\<lambda>i. (labels ! i, py_round2 (raw ! i * 100)))
                       (filter (\<lambda>i. thr \<le> py_round2 (raw ! i * 100)) sel)
          \<and> int (length res) \<le> k
          \<and> sorted_wrt (\<ge>) (map snd res)
          \<and> (\<forall>e\<in>set res. thr \<le> snd e)))
   \<and> (\<forall>order.
        ascending_argsort [81 / 100, 4 / 100, 9 / 100, 87 / 100] order \<longrightarrow>
        postprocess [''a'', ''b'', ''c'', ''d''] 3 5 [81 / 100, 4 / 100, 9 / 100, 87 / 100] order
          = Inr [(''d'', 87), (''a'', 81), (''c'', 9)])
   \<and> (\<forall>order.
        ascending_argsort
          [13589545 / 16777216, 5368709 / 134217728, 3019899 / 33554432, 7298089 / 8388608]
          order \<longrightarrow>
        postprocess [''a'', ''b'', ''c'', ''d''] 3 5
          [13589545 / 16777216, 5368709 / 134217728, 3019899 / 33554432, 7298089 / 8388608]
          order
          = Inr [(''d'', 87), (''a'', 81), (''c'', 9)])
   \<and> (\<forall>argsort.
        ascending_argsort (replicate 20 (1 / 100)) (argsort (replicate 20 (1 / 100))) \<longrightarrow>
        predict_sync argsort (\<lambda>_. Inr (replicate 20 (1 / 100))) [] = Inr [])"
proof (intro conjI allI impI)
  fix argsort :: "rat list \<Rightarrow> nat list" and classify :: "bytes \<Rightarrow> error + rat list"
    and img raw
  assume "classify img = Inr raw"
  then show "predict_sync argsort classify img =
        postprocess CLASS_NAMES TOP_K CONFIDENCE_THRESHOLD raw (argsort raw)"
    by (simp add: predict_sync_def)
next
  fix labels :: "string list" and k :: int and thr :: rat and raw order
  assume a: "length raw = length labels \<and> 0 < k \<and> ascending_argsort raw order"
  let ?conf = "\<lambda>i. py_round2 (raw ! i * 100)"
  let ?sel = "top_indices k order"
  let ?res = "map (\<lambda>i. (labels ! i, ?conf i)) (filter (\<lambda>i. thr \<le> ?conf i) ?sel)"
  from a have asc: "ascending_argsort raw order" and k: "0 < k" by simp_all
  note sel = top_indices_selection [OF asc k]
  have eq: "postprocess labels k thr raw order = Inr ?res"
    using a by (simp add: postprocess_eq)
  have "length ?res \<le> length ?sel" by simp
  also have "\<dots> \<le> nat k" using sel(3) by simp
  finally have len: "int (length ?res) \<le> k" using k by linarith
  have "sorted_wrt (\<lambda>i j. ?conf j \<le> ?conf i) ?sel"
    by (rule sorted_wrt_mono_rel [OF _ sel(5)]) (auto intro!: py_round2_mono)
  then have "sorted_wrt (\<lambda>i j. ?conf j \<le> ?conf i) (filter (\<lambda>i. thr \<le> ?conf i) ?sel)"
    by (rule sorted_wrt_filter)
  then have srt: "sorted_wrt (\<ge>) (map snd ?res)"
    by (simp add: sorted_wrt_map comp_def)
  have thr: "\<forall>e\<in>set ?res. thr \<le> snd e" by auto
  show "\<exists>sel res.
            postprocess labels k thr raw order = Inr res
          \<and> distinct sel \<and> set sel \<subseteq> {0..<length raw}
          \<and> length sel = min (nat k) (length raw)
          \<and> (\<forall>i\<in>set sel. \<forall>j<length raw. j \<notin> set sel \<longrightarrow> raw ! j \<le> raw ! i)
          \<and> res = map (\<lambda>i. (labels ! i, py_round2 (raw ! i * 100)))
                       (filter (\<lambda>i. thr \<le> py_round2 (raw ! i * 100)) sel)
          \<and> int (length res) \<le> k
          \<and> sorted_wrt (\<ge>) (map snd res)
          \<and> (\<forall>e\<in>set res. thr \<le> snd e)"
    using eq sel(1-4) len srt thr by blast
next
  fix order
  let ?v = "[81 / 100, 4 / 100, 9 / 100, 87 / 100 :: rat]"
  assume "ascending_argsort ?v order"
  moreover have "distinct ?v" by simp
  ultimately have o: "order = stable_argsort ?v" by (simp add: ascending_argsort_unique)
  have "postprocess [''a'', ''b'', ''c'', ''d''] 3 5 ?v (stable_argsort ?v)
          = Inr [(''d'', 87), (''a'', 81), (''c'', 9)]"
    by code_simp
  then show "postprocess [''a'', ''b'', ''c'', ''d''] 3 5 ?v order
          = Inr [(''d'', 87), (''a'', 81), (''c'', 9)]"
    by (simp only: o)
next
  fix order
  let ?v = "[13589545 / 16777216, 5368709 / 134217728, 3019899 / 33554432,
             7298089 / 8388608 :: rat]"
  assume "ascending_argsort ?v order"
  moreover have "distinct ?v" by simp
  ultimately have o: "order = stable_argsort ?v" by (simp add: ascending_argsort_unique)
  have "postprocess [''a'', ''b'', ''c'', ''d''] 3 5 ?v (stable_argsort ?v)
          = Inr [(''d'', 87), (''a'', 81), (''c'', 9)]"
    by code_simp
  then show "postprocess [''a'', ''b'', ''c'', ''d''] 3 5 ?v order
          = Inr [(''d'', 87), (''a'', 81), (''c'', 9)]"
    by (simp only: o)
next
  fix argsort :: "rat list \<Rightarrow> nat list"
  let ?v = "replicate 20 (1 / 100 :: rat)"
  assume asc: "ascending_argsort ?v (argsort ?v)"
  have l: "length ?v = length CLASS_NAMES" by (simp add: CLASS_NAMES_def)
  have c: "py_round2 (1 / 100 * 100) = 1" by code_simp
  have s: "set (top_indices TOP_K (argsort ?v)) \<subseteq> {0..<length ?v}"
    by (rule top_indices_selection(2) [OF asc]) (simp add: TOP_K_def)
  have "filter (\<lambda>i. CONFIDENCE_THRESHOLD \<le> py_round2 (?v ! i * 100))
          (top_indices TOP_K (argsort ?v)) = []"
    unfolding filter_empty_conv
  proof
    fix i
    assume "i \<in> set (top_indices TOP_K (argsort ?v))"
    with s have "i < 20" by auto
    then have "?v ! i = 1 / 100" by simp
    then show "\<not> CONFIDENCE_THRESHOLD \<le> py_round2 (?v ! i * 100)"
      using c by (simp add: CONFIDENCE_THRESHOLD_def)
  qed
  then show "predict_sync argsort (\<lambda>_. Inr ?v) [] = Inr []"
    using predict_sync_eq [of "\<lambda>_. Inr ?v" "[]" ?v argsort] l asc by simp
qed

theorem predict_sync_prediction_shape_witness:
  "length ([9 / 10, 1 / 20] @ replicate 18 (0::rat)) = length CLASS_NAMES
   \<and> 0 < TOP_K
   \<and> ascending_argsort ([9 / 10, 1 / 20] @ replicate 18 0)
        (stable_argsort ([9 / 10, 1 / 20] @ replicate 18 0))
   \<and> predict_sync stable_argsort (\<lambda>_. Inr ([9 / 10, 1 / 20] @ replicate 18 0)) []
        = Inr [(''animals'', 90), (''barriers'', 5)]
   \<and> (\<exists>sel. distinct sel \<and> length sel = 3
          \<and> [(''animals'', 90), (''barriers'', 5)] =
              map (\<lambda>i. (CLASS_NAMES ! i,
                         py_round2 (([9 / 10, 1 / 20] @ replicate 18 0) ! i * 100)))
                (filter (\<lambda>i. CONFIDENCE_THRESHOLD
                               \<le> py_round2 (([9 / 10, 1 / 20] @ replicate 18 0) ! i * 100))
                   sel))"
proof -
  let ?v = "[9 / 10, 1 / 20] @ replicate 18 (0::rat)"
  have l: "length ?v = length CLASS_NAMES" by (simp add: CLASS_NAMES_def)
  have k: "0 < TOP_K" by (simp add: TOP_K_def)
  have a: "ascending_argsort ?v (stable_argsort ?v)" by (rule stable_argsort_ascending)
  have p: "predict_sync stable_argsort (\<lambda>_. Inr ?v) []
        = Inr [(''animals'', 90), (''barriers'', 5)]"
    by code_simp
  note t = predict_sync_prediction_shape
  have link: "predict_sync stable_argsort (\<lambda>_. Inr ?v) [] =
        postprocess CLASS_NAMES TOP_K CONFIDENCE_THRESHOLD ?v (stable_argsort ?v)"
    using t [THEN conjunct1] by simp
  have h: "length ?v = length CLASS_NAMES \<and> 0 < TOP_K
      \<and> ascending_argsort ?v (stable_argsort ?v)"
    using l k a by (intro conjI)
  from t [THEN conjunct2, THEN conjunct1, THEN spec [where x = CLASS_NAMES],
      THEN spec [where x = TOP_K], THEN spec [where x = CONFIDENCE_THRESHOLD],
      THEN spec [where x = ?v], THEN spec [where x = "stable_argsort ?v"], THEN mp, OF h]
  obtain sel res where
    r: "postprocess CLASS_NAMES TOP_K CONFIDENCE_THRESHOLD ?v (stable_argsort ?v) = Inr res"
      "distinct sel" "length sel = min (nat TOP_K) (length ?v)"
      "res = map (\<lambda>i. (CLASS_NAMES ! i, py_round2 (?v ! i * 100)))
                (filter (\<lambda>i. CONFIDENCE_THRESHOLD \<le> py_round2 (?v ! i * 100)) sel)"
    by blast
  from r(1) link p have res: "res = [(''animals'', 90), (''barriers'', 5)]" by simp
  have len: "length sel = 3" using r(3) by (simp add: TOP_K_def)
  have "\<exists>sel. distinct sel \<and> length sel = 3
          \<and> [(''animals'', 90), (''barriers'', 5)] =
              map (\<lambda>i. (CLASS_NAMES ! i, py_round2 (?v ! i * 100)))
                (filter (\<lambda>i. CONFIDENCE_THRESHOLD \<le> py_round2 (?v ! i * 100)) sel)"
    using r(2) len r(4) [unfolded res] by (intro exI [of _ sel] conjI)
  with l k a p show ?thesis by (intro conjI)
qed

text \<open>
  Claim C10. The floor is applied to the rounded percentage: an entry of the top indices
  is kept exactly when \<open>round(raw * 100, 2) \<ge> CONFIDENCE_THRESHOLD\<close>, and the
  confidence reported is that rounded value. The float32 value 838693 / 16777216
  (about 0.04999) has \<open>raw * 100 < 5\<close>, rounds to 5.0, and is reported as
  (animals, 5.0), whatever order \<open>argsort\<close> gives the nineteen zeros beside it.
\<close>

theorem confidence_floor_on_rounded_value:
  "(\<forall>argsort classify img raw.
      classify img = Inr raw \<and> length raw = length CLASS_NAMES
      \<and> ascending_argsort raw (argsort raw) \<longrightarrow>
      predict_sync argsort classify img =
        Inr (map (\<lambda>i. (CLASS_NAMES ! i, py_round2 (raw ! i * 100)))
                 (filter (\<lambda>i. CONFIDENCE_THRESHOLD \<le> py_round2 (raw ! i * 100))
                         (top_indices TOP_K (argsort raw)))))
   \<and> (838693 / 16777216) * 100 < CONFIDENCE_THRESHOLD
   \<and> (\<forall>argsort.
        ascending_argsort (838693 / 16777216 # replicate 19 0)
          (argsort (838693 / 16777216 # replicate 19 0)) \<longrightarrow>
        predict_sync argsort (\<lambda>_. Inr (838693 / 16777216 # replicate 19 0)) []
          = Inr [(''animals'', 5)])"
proof (intro conjI allI impI)
  fix argsort :: "rat list \<Rightarrow> nat list" and classify :: "bytes \<Rightarrow> error + rat list"
    and img raw
  assume "classify img = Inr raw \<and> length raw = length CLASS_NAMES
      \<and> ascending_argsort raw (argsort raw)"
  then show "predict_sync argsort classify img =
        Inr (map (\<lambda>i. (CLASS_NAMES ! i, py_round2 (raw ! i * 100)))
                 (filter (\<lambda>i. CONFIDENCE_THRESHOLD \<le> py_round2 (raw ! i * 100))
                         (top_indices TOP_K (argsort raw))))"
    by (simp add: predict_sync_eq)
next
  show "(838693 / 16777216) * 100 < CONFIDENCE_THRESHOLD"
    by (simp add: CONFIDENCE_THRESHOLD_def)
next
  fix argsort :: "rat list \<Rightarrow> nat list"
  let ?v = "838693 / 16777216 # replicate 19 (0::rat)"
  let ?sel = "top_indices TOP_K (argsort ?v)"
  let ?P = "\<lambda>i. CONFIDENCE_THRESHOLD \<le> py_round2 (?v ! i * 100)"
  assume asc: "ascending_argsort ?v (argsort ?v)"
  have l: "length ?v = length CLASS_NAMES" by (simp add: CLASS_NAMES_def)
  have k: "0 < TOP_K" by (simp add: TOP_K_def)
  note sel = top_indices_selection [OF asc k]
  have c0: "py_round2 (838693 / 16777216 * 100) = 5" by code_simp
  have cz: "py_round2 0 = 0" by code_simp
  have P: "?P i \<longleftrightarrow> i = 0" if "i \<in> set ?sel" for i
  proof (cases i)
    case 0
    then show ?thesis using c0 by (simp add: CONFIDENCE_THRESHOLD_def)
  next
    case (Suc n)
    with that sel(2) have "n < 19" by auto
    with Suc show ?thesis using cz by (simp add: CONFIDENCE_THRESHOLD_def)
  qed
  have in0: "0 \<in> set ?sel"
  proof (rule ccontr)
    assume n: "0 \<notin> set ?sel"
    have "length ?sel = 3" using sel(3) by (simp add: TOP_K_def)
    then obtain i where i: "i \<in> set ?sel" by (cases ?sel) auto
    from sel(4) [rule_format, OF i, of 0] n have "?v ! 0 \<le> ?v ! i" by simp
    moreover have "i \<noteq> 0"
    proof
      assume "i = 0"
      with i n show False by simp
    qed
    then obtain m where m: "i = Suc m" using not0_implies_Suc by blast
    moreover have "m < 19" using m i sel(2) by auto
    ultimately show False by simp
  qed
  have "filter ?P ?sel = filter (\<lambda>i. i = 0) ?sel"
    by (rule filter_cong) (simp_all add: P)
  also have "\<dots> = [0]" using sel(1) in0 by (rule filter_single)
  finally have "filter ?P ?sel = [0]" .
  then show "predict_sync argsort (\<lambda>_. Inr ?v) [] = Inr [(''animals'', 5)]"
    using predict_sync_eq [of "\<lambda>_. Inr ?v" "[]" ?v argsort] l asc c0
    by (simp add: CLASS_NAMES_def)
qed

theorem confidence_floor_on_rounded_value_witness:
  "length (838693 / 16777216 # replicate 19 (0::rat)) = length CLASS_NAMES
   \<and> ascending_argsort (838693 / 16777216 # replicate 19 0)
        (stable_argsort (838693 / 16777216 # replicate 19 0))
   \<and> predict_sync stable_argsort (\<lambda>_. Inr (838693 / 16777216 # replicate 19 0)) []
        = Inr [(''animals'', 5)]
   \<and> predict_sync stable_argsort (\<lambda>_. Inr (838693 / 16777216 # replicate 19 0)) [] =
        Inr (map (\<lambda>i. (CLASS_NAMES ! i, py_round2 ((838693 / 16777216 # replicate 19 0) ! i * 100)))
                 (filter (\<lambda>i. CONFIDENCE_THRESHOLD \<le> py_round2 ((838693 / 16777216 # replicate 19 0) ! i * 100))
                         (top_indices TOP_K (stable_argsort (838693 / 16777216 # replicate 19 0)))))"
proof -
  let ?v = "838693 / 16777216 # replicate 19 (0::rat)"
  have l: "length ?v = length CLASS_NAMES" by (simp add: CLASS_NAMES_def)
  have a: "ascending_argsort ?v (stable_argsort ?v)" by (rule stable_argsort_ascending)
  note t = confidence_floor_on_rounded_value
  have e: "predict_sync stable_argsort (\<lambda>_. Inr ?v) [] = Inr [(''animals'', 5)]"
    using t [THEN conjunct2, THEN conjunct2, THEN spec [where x = stable_argsort], THEN mp, OF a] .
  have h: "(\<lambda>_::bytes. (Inr ?v :: error + rat list)) [] = Inr ?v \<and> length ?v = length CLASS_NAMES
      \<and> ascending_argsort ?v (stable_argsort ?v)"
    using l a by simp
  note t [THEN conjunct1, THEN spec [where x = stable_argsort],
      THEN spec [where x = "\<lambda>_::bytes. (Inr ?v :: error + rat list)"],
      THEN spec [where x = "[]"], THEN spec [where x = ?v], THEN mp, OF h]
  with l a e show ?thesis by (intro conjI)
qed

lemma insort_key_before:
  "sorted_wrt (before raw) ys \<Longrightarrow> \<forall>y\<in>set ys. i < y \<Longrightarrow>
   sorted_wrt (before raw) (insort_key (\<lambda>i. raw ! i) i ys)"
  by (induction ys) (auto simp: before_def set_insort_key)

lemma sort_key_before:
  "sorted_wrt (<) xs \<Longrightarrow> sorted_wrt (before raw) (sort_key (\<lambda>i. raw ! i) xs)"
proof (induction xs)
  case Nil
  then show ?case by simp
next
  case (Cons x xs)
  then show ?case
    by (auto intro!: insort_key_before)
qed

lemma stable_argsort_before: "sorted_wrt (before raw) (stable_argsort raw)"
  unfolding stable_argsort_def by (rule sort_key_before) simp

lemma before_asym: "before raw i j \<Longrightarrow> \<not> before raw j i"
  by (auto simp: before_def)

lemma sorted_wrt_split2:
  assumes "sorted_wrt R xs" "a \<in> set xs" "b \<in> set xs" "R a b" "\<And>x y. R x y \<Longrightarrow> \<not> R y x"
  shows "\<exists>pre mid post. xs = pre @ a # mid @ b # post"
proof -
  from assms(2) obtain pre rest where xs: "xs = pre @ a # rest"
    by (auto dest: split_list)
  have "b \<notin> set pre"
  proof
    assume "b \<in> set pre"
    with assms(1) xs have "R b a" by (auto simp: sorted_wrt_append)
    with assms(4,5) show False by blast
  qed
  moreover have "b \<noteq> a" using assms(4,5) by blast
  ultimately have "b \<in> set rest" using assms(3) xs by auto
  then obtain mid post where "rest = mid @ b # post"
    by (auto dest: split_list)
  with xs show ?thesis by auto
qed

text \<open>
  A stable sort places equal values in index order, so with it the line
  \<open>argsort()[-TOP_K:][::-1]\<close> returns the larger index first.
\<close>

lemma stable_argsort_ties_in_index_order:
  assumes "i < j" and "j < length raw" and "raw ! i = raw ! j"
  shows "\<exists>pre mid post. stable_argsort raw = pre @ i # mid @ j # post"
proof -
  have "i \<in> set (stable_argsort raw)" "j \<in> set (stable_argsort raw)"
    using assms(1,2) by (simp_all add: stable_argsort_def)
  moreover have "before raw i j" using assms(1,3) by (simp add: before_def)
  ultimately show ?thesis
    using stable_argsort_before before_asym by (intro sorted_wrt_split2) blast+
qed

text \<open>
  Claim C4, as stated, fails: the code does not break ties by index. For the vector with
  0.5 at indices 0 and 1, \<open>argsort\<close> may return the two indices in either order. When
  it returns 0 before 1, as a stable sort does, the prediction lists barriers (index 1)
  before animals (index 0); when it returns 1 before 0, the prediction lists animals
  first.
\<close>

theorem tie_lower_index_first_counterexample:
  "ascending_argsort ([1 / 2, 1 / 2] @ replicate 18 0) ([2..<20] @ [0, 1])
   \<and> predict_sync (\<lambda>raw. [2..<20] @ [0, 1]) (\<lambda>_. Inr ([1 / 2, 1 / 2] @ replicate 18 0)) []
       = Inr [(''barriers'', 50), (''animals'', 50)]
   \<and> ascending_argsort ([1 / 2, 1 / 2] @ replicate 18 0) ([2..<20] @ [1, 0])
   \<and> predict_sync (\<lambda>raw. [2..<20] @ [1, 0]) (\<lambda>_. Inr ([1 / 2, 1 / 2] @ replicate 18 0)) []
       = Inr [(''animals'', 50), (''barriers'', 50)]
   \<and> stable_argsort ([1 / 2, 1 / 2] @ replicate 18 0) = [2..<20] @ [0, 1]"
  by code_simp

text \<open>
  Claim C4, amended. A tie is broken by the order in which \<open>argsort\<close> returns the
  indices, the later one winning: when two entries of the confidence vector are equal,
  \<open>argsort\<close> places \<open>i\<close> before \<open>j\<close>, and \<open>i\<close> is among the selected indices, then
  \<open>j\<close> is selected too and stands before \<open>i\<close>, in the selection and, when the entries
  pass the confidence floor, in the returned prediction list.
\<close>

theorem ties_follow_argsort_order:
  assumes "classify img = Inr raw" and "length raw = length CLASS_NAMES"
    and "ascending_argsort raw (argsort raw)"
    and "argsort raw = pre @ i # mid @ j # post"
    and "raw ! i = raw ! j"
    and "i \<in> set (top_indices TOP_K (argsort raw))"
  shows "j \<in> set (top_indices TOP_K (argsort raw))
     \<and> (\<exists>pre' post'. top_indices TOP_K (argsort raw) = pre' @ j # rev mid @ i # post')
     \<and> (CONFIDENCE_THRESHOLD \<le> py_round2 (raw ! i * 100) \<longrightarrow>
          (\<exists>pre' mid' post' c. predict_sync argsort classify img =
              Inr (pre' @ (CLASS_NAMES ! j, c) # mid' @ (CLASS_NAMES ! i, c) # post')))"
proof -
  have d: "distinct (argsort raw)" using assms(3) by (simp add: ascending_argsort_def)
  from top_indices_reverses [OF d assms(4,6)]
  obtain pre' post' where sp: "top_indices TOP_K (argsort raw) = pre' @ j # rev mid @ i # post'"
    by blast
  let ?P = "\<lambda>i. CONFIDENCE_THRESHOLD \<le> py_round2 (raw ! i * 100)"
  let ?g = "\<lambda>i. (CLASS_NAMES ! i, py_round2 (raw ! i * 100))"
  have res: "\<exists>pre' mid' post' c. predict_sync argsort classify img =
              Inr (pre' @ (CLASS_NAMES ! j, c) # mid' @ (CLASS_NAMES ! i, c) # post')"
    if k: "?P i"
  proof -
    have "predict_sync argsort classify img =
      Inr (map ?g (filter ?P pre') @ (CLASS_NAMES ! j, py_round2 (raw ! i * 100))
           # map ?g (filter ?P (rev mid)) @ (CLASS_NAMES ! i, py_round2 (raw ! i * 100))
           # map ?g (filter ?P post'))"
      using k assms(1,2,3,5)
      by (simp add: predict_sync_eq [of classify img raw argsort] sp)
    then show ?thesis by blast
  qed
  from sp res show ?thesis by auto
qed

theorem ties_follow_argsort_order_witness:
  "length ([1 / 2, 1 / 2] @ replicate 18 (0::rat)) = length CLASS_NAMES
   \<and> ascending_argsort ([1 / 2, 1 / 2] @ replicate 18 0)
        (stable_argsort ([1 / 2, 1 / 2] @ replicate 18 0))
   \<and> stable_argsort ([1 / 2, 1 / 2] @ replicate 18 0) = [2..<20] @ 0 # [] @ 1 # []
   \<and> ([1 / 2, 1 / 2] @ replicate 18 (0::rat)) ! 0 = ([1 / 2, 1 / 2] @ replicate 18 0) ! 1
   \<and> 0 \<in> set (top_indices TOP_K (stable_argsort ([1 / 2, 1 / 2] @ replicate 18 0)))
   \<and> CONFIDENCE_THRESHOLD \<le> py_round2 (([1 / 2, 1 / 2] @ replicate 18 0) ! 0 * 100)
   \<and> 1 \<in> set (top_indices TOP_K (stable_argsort ([1 / 2, 1 / 2] @ replicate 18 0)))
   \<and> (\<exists>pre' mid' post' c.
         predict_sync stable_argsort (\<lambda>_. Inr ([1 / 2, 1 / 2] @ replicate 18 0)) [] =
           Inr (pre' @ (CLASS_NAMES ! 1, c) # mid' @ (CLASS_NAMES ! 0, c) # post'))"
proof -
  let ?raw = "[1 / 2, 1 / 2] @ replicate 18 (0::rat)"
  have l: "length ?raw = length CLASS_NAMES" by (simp add: CLASS_NAMES_def)
  have a: "ascending_argsort ?raw (stable_argsort ?raw)" by (rule stable_argsort_ascending)
  have o: "stable_argsort ?raw = [2..<20] @ 0 # [] @ 1 # []" by code_simp
  have e: "?raw ! 0 = ?raw ! 1" by simp
  have t: "0 \<in> set (top_indices TOP_K (stable_argsort ?raw))" by code_simp
  have c: "CONFIDENCE_THRESHOLD \<le> py_round2 (?raw ! 0 * 100)" by code_simp
  have cl: "(\<lambda>_::bytes. (Inr ?raw :: error + rat list)) [] = Inr ?raw" by simp
  note ties_follow_argsort_order [of "\<lambda>_. Inr ?raw" "[]" ?raw stable_argsort "[2..<20]" 0 "[]" 1 "[]",
      OF cl l a o e t]
  with l a o e t c show ?thesis by blast
qed

section \<open>Properties of the start-up check and of the HTTP endpoint\<close>

text \<open>
  Claim C8. If the last dimension of the classifier's output shape differs from the
  length of \<open>CLASS_NAMES\<close>, the module initialisation of model_worker raises
  ValueError and the server does not start, whatever the other settings. If the two
  are equal, the check passes and start-up proceeds to the statements after it: the
  initialisation is then that of the executor, and with a positive worker count the
  server starts.
\<close>

theorem startup_dimension_check:
  "(output_shape \<noteq> [] \<and> last output_shape \<noteq> Some (int (length CLASS_NAMES)) \<longrightarrow>
      model_worker_init (Inr output_shape) max_workers = Inl ValueError
      \<and> main_start (Inr output_shape) max_workers = Inl ValueError)
   \<and> (output_shape \<noteq> [] \<and> last output_shape = Some (int (length CLASS_NAMES)) \<longrightarrow>
      check_output_shape output_shape = Inr ()
      \<and> model_worker_init (Inr output_shape) max_workers = make_executor max_workers
      \<and> (0 < max_workers \<longrightarrow> main_start (Inr output_shape) max_workers = Inr Serving))"
  by (auto simp: model_worker_init_def main_start_def check_output_shape_def
        make_executor_def)

theorem startup_dimension_check_witness:
  "[None, Some 10] \<noteq> [] \<and> last [None, Some 10] \<noteq> Some (int (length CLASS_NAMES))
   \<and> model_worker_init (Inr [None, Some 10]) 2 = Inl ValueError
   \<and> main_start (Inr [None, Some 10]) 2 = Inl ValueError
   \<and> [None, Some 20] \<noteq> [] \<and> last [None, Some 20] = Some (int (length CLASS_NAMES))
   \<and> (0::int) < 2
   \<and> main_start (Inr [None, Some 20]) 2 = Inr Serving"
  using startup_dimension_check [of "[None, Some 10]" 2]
    startup_dimension_check [of "[None, Some 20]" 2]
  by (simp add: CLASS_NAMES_def)

text \<open>
  Claim C6. A POST /predict-image request whose content type is outside
  \<open>ALLOWED_MIME_TYPES\<close>, or whose body is longer than \<open>MAX_UPLOAD_BYTES\<close>, is answered
  with status 400 and an error message, and \<open>run_inference\<close> is not called for it.
\<close>

theorem predict_image_rejects_before_inference:
  assumes "content_type file \<notin> Some ` ALLOWED_MIME_TYPES
           \<or> MAX_UPLOAD_BYTES < int (length (contents file))"
  shows "status_code (fst (predict_image run_inf file)) = 400
     \<and> (\<exists>m. body (fst (predict_image run_inf file)) = ErrorBody m)
     \<and> snd (predict_image run_inf file) = []"
  using assms by (auto simp: predict_image_def)

theorem predict_image_rejects_before_inference_witness:
  "MAX_UPLOAD_BYTES <
      int (length (contents \<lparr>content_type = Some ''image/png'', filename = ''a.png'',
                             contents = replicate 10485761 0\<rparr>))
   \<and> status_code (fst (predict_image (\<lambda>b. Inr [])
        \<lparr>content_type = Some ''image/png'', filename = ''a.png'',
         contents = replicate 10485761 0\<rparr>)) = 400
   \<and> snd (predict_image (\<lambda>b. Inr [])
        \<lparr>content_type = Some ''image/png'', filename = ''a.png'',
         contents = replicate 10485761 0\<rparr>) = []"
  using predict_image_rejects_before_inference
    [of "\<lparr>content_type = Some ''image/png'', filename = ''a.png'',
          contents = replicate 10485761 0\<rparr>" "\<lambda>b. Inr []"]
  by (simp add: MAX_UPLOAD_BYTES_def)

section \<open>Properties of the WebSocket scheduler\<close>

lemma run_Nil [simp]: "run lib [] st = st"
  by (simp add: run_def)

lemma run_Cons [simp]: "run lib (e # es) st = run lib es (step lib e st)"
  by (simp add: run_def)


lemma loop_inv_init: "loop_inv init_conn"
  by (simp add: loop_inv_def init_conn_def)

lemma mailbox_inv_init: "mailbox_inv init_conn"
  by (simp add: mailbox_inv_def init_conn_def)

lemma cancel_loop_fields [simp]:
  "started (cancel_loop st) = started st"
  "arrived (cancel_loop st) = arrived st"
  "pending_frame (cancel_loop st) = pending_frame st"
  "completed (cancel_loop st) = completed st"
  "outbox (cancel_loop st) = outbox st"
  "handler (cancel_loop st) = handler st"
  by (simp_all add: cancel_loop_def split: loop_pc.splits)

lemma loop_inv_cancel: "loop_inv st \<Longrightarrow> loop_inv (cancel_loop st)"
  by (cases "loop st") (auto simp: loop_inv_def cancel_loop_def split: if_splits)

lemma loop_inv_handler_update [simp]: "loop_inv (st\<lparr>handler := h\<rparr>) = loop_inv st"
  by (simp add: loop_inv_def)

lemma loop_inv_on_message: "loop_inv st \<Longrightarrow> loop_inv (on_message lib raw st)"
  by (auto simp: on_message_def loop_inv_cancel
           split: option.splits sum.splits bool.splits)
     (auto simp: loop_inv_def split: if_splits)

lemma loop_inv_step: "loop_inv st \<Longrightarrow> loop_inv (step lib e st)"
proof (cases e)
  case (Recv raw)
  then show "loop_inv st \<Longrightarrow> ?thesis" by (simp add: loop_inv_on_message)
next
  case Disconnect
  then show "loop_inv st \<Longrightarrow> ?thesis" by (simp add: loop_inv_cancel)
next
  case ReplySent
  then show "loop_inv st \<Longrightarrow> ?thesis"
    by (cases "handler st") (auto simp: loop_inv_def split: if_splits)
next
  case (ReplyFailed d)
  then show "loop_inv st \<Longrightarrow> ?thesis"
    by (cases "handler st") (simp_all add: loop_inv_cancel)
next
  case Wake
  then show "loop_inv st \<Longrightarrow> ?thesis"
    by (cases "loop st"; cases "pending_frame st") (auto simp: loop_inv_def loop_top_def split: if_splits)
next
  case (InferDone t)
  then show "loop_inv st \<Longrightarrow> ?thesis"
    by (cases "loop st") (auto simp: loop_inv_def split: sum.splits if_splits)
next
  case SendDone
  then show "loop_inv st \<Longrightarrow> ?thesis"
    by (cases "loop st"; cases "pending_frame st") (auto simp: loop_inv_def loop_top_def split: if_splits)
next
  case (SendFailed m)
  then show "loop_inv st \<Longrightarrow> ?thesis"
    by (cases "loop st") (auto simp: loop_inv_def split: if_splits)
qed

lemma loop_inv_run: "loop_inv st \<Longrightarrow> loop_inv (run lib es st)"
  by (induction es arbitrary: st) (simp_all add: loop_inv_step)

lemma mailbox_inv_cong:
  "pending_frame st' = pending_frame st \<Longrightarrow> arrived st' = arrived st \<Longrightarrow>
   started st' = started st \<Longrightarrow> mailbox_inv st' = mailbox_inv st"
  by (simp add: mailbox_inv_def)

lemma on_message_cases:
  "(pending_frame (on_message lib raw st) = pending_frame st
      \<and> arrived (on_message lib raw st) = arrived st
      \<and> started (on_message lib raw st) = started st
      \<and> completed (on_message lib raw st) = completed st
      \<and> outbox (on_message lib raw st) = outbox st)
   \<or> (\<exists>b. on_message lib raw st =
          st\<lparr>pending_frame := Some (length (arrived st), b),
             arrived := arrived st @ [(length (arrived st), b)]\<rparr>)"
  by (auto simp: on_message_def split: option.splits sum.splits bool.splits)

lemma mailbox_inv_store:
  assumes "mailbox_inv st"
  shows "mailbox_inv (st\<lparr>pending_frame := Some (length (arrived st), b),
                         arrived := arrived st @ [(length (arrived st), b)]\<rparr>)"
proof (cases "pending_frame st")
  case None
  with assms show ?thesis by (simp add: mailbox_inv_def)
next
  case (Some f)
  with assms have "subseq (started st) (butlast (arrived st))" "arrived st \<noteq> []"
    by (simp_all add: mailbox_inv_def)
  then have "subseq (started st) (butlast (arrived st) @ [last (arrived st)])"
    using list_emb_append_mono
      [of "(=)" "started st" "butlast (arrived st)" "[]" "[last (arrived st)]"]
    by simp
  then have "subseq (started st) (arrived st)"
    using \<open>arrived st \<noteq> []\<close> by simp
  with assms show ?thesis by (simp add: mailbox_inv_def)
qed

lemma mailbox_inv_loop_top:
  assumes "mailbox_inv st"
  shows "mailbox_inv (loop_top st)"
proof (cases "pending_frame st")
  case None
  with assms show ?thesis by (simp add: mailbox_inv_def loop_top_def)
next
  case (Some f)
  with assms have a: "arrived st \<noteq> []" "f = last (arrived st)"
      "subseq (started st) (butlast (arrived st))"
    by (simp_all add: mailbox_inv_def)
  have "subseq (started st @ [f]) (butlast (arrived st) @ [f])"
    using a(3) by (simp add: list_emb_append_mono)
  then have "subseq (started st @ [f]) (arrived st)"
    using a(1,2) by simp
  with assms Some a show ?thesis by (simp add: mailbox_inv_def loop_top_def)
qed

lemma mailbox_inv_on_message: "mailbox_inv st \<Longrightarrow> mailbox_inv (on_message lib raw st)"
proof -
  assume i: "mailbox_inv st"
  from on_message_cases [of lib raw st] show ?thesis
  proof (elim disjE exE)
    assume "pending_frame (on_message lib raw st) = pending_frame st
      \<and> arrived (on_message lib raw st) = arrived st
      \<and> started (on_message lib raw st) = started st
      \<and> completed (on_message lib raw st) = completed st
      \<and> outbox (on_message lib raw st) = outbox st"
    then show ?thesis using i mailbox_inv_cong [of "on_message lib raw st" st] by simp
  next
    fix b
    assume "on_message lib raw st =
          st\<lparr>pending_frame := Some (length (arrived st), b),
             arrived := arrived st @ [(length (arrived st), b)]\<rparr>"
    then show ?thesis using mailbox_inv_store [OF i, of b] by simp
  qed
qed

lemma mailbox_inv_step: "mailbox_inv st \<Longrightarrow> mailbox_inv (step lib e st)"
proof (cases e)
  case (Recv raw)
  then show "mailbox_inv st \<Longrightarrow> ?thesis" by (simp add: mailbox_inv_on_message)
next
  case Disconnect
  then show "mailbox_inv st \<Longrightarrow> ?thesis" by (simp add: mailbox_inv_def)
next
  case ReplySent
  then show "mailbox_inv st \<Longrightarrow> ?thesis"
    by (cases "handler st") (simp_all add: mailbox_inv_def)
next
  case (ReplyFailed d)
  then show "mailbox_inv st \<Longrightarrow> ?thesis"
    by (cases "handler st") (simp_all add: mailbox_inv_def)
next
  case Wake
  then show "mailbox_inv st \<Longrightarrow> ?thesis"
    by (cases "loop st") (simp_all add: mailbox_inv_loop_top)
next
  case (InferDone t)
  then show "mailbox_inv st \<Longrightarrow> ?thesis"
    by (cases "loop st") (auto simp: mailbox_inv_def split: sum.splits)
next
  case SendDone
  assume i: "mailbox_inv st"
  have "\<And>ob. mailbox_inv (st\<lparr>outbox := ob, busy := False\<rparr>)"
    using i by (simp add: mailbox_inv_def)
  with SendDone show ?thesis
    by (cases "loop st") (simp_all add: mailbox_inv_loop_top i)
next
  case (SendFailed m)
  then show "mailbox_inv st \<Longrightarrow> ?thesis"
    by (cases "loop st") (simp_all add: mailbox_inv_def)
qed

lemma mailbox_inv_run: "mailbox_inv st \<Longrightarrow> mailbox_inv (run lib es st)"
  by (induction es arbitrary: st) (simp_all add: mailbox_inv_step)






lemma loop_top_fields [simp]:
  "arrived (loop_top st) = arrived st"
  "completed (loop_top st) = completed st"
  "outbox (loop_top st) = outbox st"
  "handler (loop_top st) = handler st"
  by (cases "pending_frame st"; simp add: loop_top_def)+

lemma on_message_started [simp]: "started (on_message lib raw st) = started st"
  using on_message_cases [of lib raw st] by auto

lemma on_message_completed [simp]: "completed (on_message lib raw st) = completed st"
  using on_message_cases [of lib raw st] by auto




lemma step_mailbox_cases:
  "(pending_frame (step lib e st) = pending_frame st
      \<and> arrived (step lib e st) = arrived st \<and> started (step lib e st) = started st)
   \<or> (\<exists>f. pending_frame st = Some f \<and> pending_frame (step lib e st) = None
         \<and> started (step lib e st) = started st @ [f]
         \<and> arrived (step lib e st) = arrived st
         \<and> completed (step lib e st) = completed st
         \<and> \<not> awaiting_inference (loop st) \<and> loop st \<noteq> Cancelled)
   \<or> (\<exists>b. pending_frame (step lib e st) = Some (length (arrived st), b)
         \<and> arrived (step lib e st) = arrived st @ [(length (arrived st), b)]
         \<and> started (step lib e st) = started st)"
proof (cases e)
  case (Recv raw)
  then show ?thesis using on_message_cases [of lib raw st] by auto
next
  case Disconnect
  then show ?thesis by simp
next
  case ReplySent
  then show ?thesis by (cases "handler st") simp_all
next
  case (ReplyFailed d)
  then show ?thesis by (cases "handler st") simp_all
next
  case Wake
  then show ?thesis by (cases "loop st"; cases "pending_frame st") (simp_all add: loop_top_def)
next
  case (InferDone t)
  then show ?thesis by (cases "loop st") (auto split: sum.splits)
next
  case SendDone
  then show ?thesis by (cases "loop st"; cases "pending_frame st") (simp_all add: loop_top_def)
next
  case (SendFailed m)
  then show ?thesis by (cases "loop st") simp_all
qed





lemma reachable_inv: "mailbox_inv (run lib es init_conn) \<and> loop_inv (run lib es init_conn)"
  by (simp add: mailbox_inv_run mailbox_inv_init loop_inv_run loop_inv_init)







text \<open>
  Claim C2. In every reachable state of a connection at most one call of
  \<open>run_inference\<close> has been started and has not ended, and the loop starts a call only
  when every call it started before has returned or raised. While a call is in flight
  the loop is suspended at it with \<open>busy\<close> set, unless the connection was closed and the
  loop cancelled, after which it starts nothing.
\<close>

theorem one_inference_in_flight:
  assumes "st = run lib es init_conn"
  shows "completed st \<le> length (started st) \<and> length (started st) \<le> completed st + 1
     \<and> (completed st < length (started st) \<longrightarrow>
          awaiting_inference (loop st) \<and> busy st \<or> loop st = Cancelled)
     \<and> (\<forall>e. started (step lib e st) \<noteq> started st \<longrightarrow>
          completed st = length (started st)
          \<and> length (started (step lib e st)) = length (started st) + 1
          \<and> completed (step lib e st) = completed st)"
proof (intro conjI allI impI)
  have i: "loop_inv st" using assms reachable_inv by simp
  show "completed st \<le> length (started st)"
    using i by (auto simp: loop_inv_def split: if_splits)
  show "length (started st) \<le> completed st + 1"
    using i by (auto simp: loop_inv_def split: if_splits)
  show "awaiting_inference (loop st) \<and> busy st \<or> loop st = Cancelled"
    if "completed st < length (started st)"
    using i that by (cases "loop st") (auto simp: loop_inv_def split: if_splits)
  {
    fix e
    assume c: "started (step lib e st) \<noteq> started st"
    with step_mailbox_cases [of lib e st]
    obtain f where f: "started (step lib e st) = started st @ [f]"
        "completed (step lib e st) = completed st"
        "\<not> awaiting_inference (loop st)" "loop st \<noteq> Cancelled"
      by auto
    from i f(3,4) show "completed st = length (started st)"
      by (simp add: loop_inv_def)
    from f show "length (started (step lib e st)) = length (started st) + 1" by simp
    from f show "completed (step lib e st) = completed st" by simp
  }
qed

theorem one_inference_in_flight_witness:
  "completed (run demo_lib [Recv demo_msg1, Wake, Recv demo_msg2] init_conn)
     < length (started (run demo_lib [Recv demo_msg1, Wake, Recv demo_msg2] init_conn))
   \<and> length (started (run demo_lib [Recv demo_msg1, Wake, Recv demo_msg2] init_conn))
     \<le> completed (run demo_lib [Recv demo_msg1, Wake, Recv demo_msg2] init_conn) + 1
   \<and> busy (run demo_lib [Recv demo_msg1, Wake, Recv demo_msg2] init_conn)
   \<and> started (step demo_lib Wake (run demo_lib [Recv demo_msg1] init_conn))
       \<noteq> started (run demo_lib [Recv demo_msg1] init_conn)
   \<and> completed (run demo_lib [Recv demo_msg1] init_conn)
       = length (started (run demo_lib [Recv demo_msg1] init_conn))"
proof -
  let ?st = "run demo_lib [Recv demo_msg1, Wake, Recv demo_msg2] init_conn"
  let ?s0 = "run demo_lib [Recv demo_msg1] init_conn"
  have a: "completed ?st < length (started ?st)" by code_simp
  have b: "loop ?st \<noteq> Cancelled" by code_simp
  have c: "started (step demo_lib Wake ?s0) \<noteq> started ?s0" by code_simp
  from one_inference_in_flight [OF refl, of demo_lib "[Recv demo_msg1, Wake, Recv demo_msg2]"]
    one_inference_in_flight [OF refl, of demo_lib "[Recv demo_msg1]"] a b c
  show ?thesis by blast
qed

text \<open>
  The error paths of the WebSocket handler that the code covers: an oversized message,
  a \<open>JSONDecodeError\<close>, a container without \<open>frame\<close>, and a value that
  \<open>b64decode\<close> refuses each produce one error reply and leave the rest of the state as
  it was; a failed classification produces one error reply and the loop goes on.
\<close>

lemma ws_rejected_message_gets_one_error_reply:
  assumes "handler st = Receiving"
    and "too_large raw \<or> json_loads lib raw = None
         \<or> (\<exists>msg. json_loads lib raw = Some msg
               \<and> (py_contains msg ''frame'' = Inr False
                   \<or> py_contains msg ''frame'' = Inr True
                     \<and> Option.bind (py_getitem msg ''frame'') (decode_frame lib) = None))"
  shows "\<exists>m. run lib [Recv raw, ReplySent] st = st\<lparr>outbox := outbox st @ [ErrorReply m]\<rparr>"
  using assms by (cases st) (auto simp: on_message_def)

lemma ws_failed_classification_gets_one_error_reply:
  assumes "loop st = Inferring f" and "run_inference lib (snd f) = Inl m"
  shows "outbox (run lib [InferDone t, SendDone] st) = outbox st @ [ErrorReply m]
     \<and> handler (run lib [InferDone t, SendDone] st) = handler st
     \<and> loop (run lib [InferDone t, SendDone] st) \<noteq> Finished
     \<and> loop (run lib [InferDone t, SendDone] st) \<noteq> Cancelled"
  using assms by (cases "pending_frame st") (simp_all add: loop_top_def)

lemma ws_scalar_json_leaves_handler:
  assumes "handler st = Receiving" and "\<not> too_large raw"
    and "json_loads lib raw = Some msg" and "msg = JNull \<or> msg = JBool b \<or> msg = JNum n"
  shows "handler (step lib (Recv raw) st) = Crashed
     \<and> outbox (step lib (Recv raw) st) = outbox st
     \<and> (loop (step lib (Recv raw) st) = Cancelled \<or> loop (step lib (Recv raw) st) = Finished)
     \<and> run lib es (step lib (Recv raw) st) = step lib (Recv raw) st"
proof -
  let ?s = "step lib (Recv raw) st"
  have s: "?s = (cancel_loop st)\<lparr>handler := Crashed\<rparr>"
    using assms by (auto simp: on_message_def)
  have l: "loop ?s = Cancelled \<or> loop ?s = Finished"
    unfolding s by (cases "loop st") (simp_all add: cancel_loop_def)
  have h: "handler ?s = Crashed" unfolding s by simp
  have stuck: "step lib e s' = s'"
    if "handler s' = Crashed" "loop s' = Cancelled \<or> loop s' = Finished" for e s'
    using that by (cases e) auto
  have "run lib es s' = s'"
    if "handler s' = Crashed" "loop s' = Cancelled \<or> loop s' = Finished" for s'
    using that by (induction es) (simp_all add: stuck)
  from this [OF h l] h l s show ?thesis by simp
qed

text \<open>
  Claim C7 does not hold of the code for a message that is valid JSON but a number, a
  boolean or \<open>null\<close>: such a message has no \<open>frame\<close> key, \<open>"frame" not in msg\<close>
  raises TypeError, which only \<open>except WebSocketDisconnect\<close> guards, so \<open>ws_predict\<close>
  ends: the loop is cancelled, no error reply is sent, and a well-formed frame sent
  afterwards is not processed. After the malformed text \<open>nul\<close>, in contrast, the
  connection stays usable.
\<close>

theorem ws_null_message_ends_connection:
  "\<not> too_large ''null''
   \<and> handler (run demo_lib [Recv ''null''] init_conn) = Crashed
   \<and> loop (run demo_lib [Recv ''null''] init_conn) = Cancelled
   \<and> outbox (run demo_lib [Recv ''null''] init_conn) = []
   \<and> outbox (run demo_lib [Recv ''null'', Recv demo_msg1, Wake, InferDone 1, SendDone]
        init_conn) = []
   \<and> started (run demo_lib [Recv ''null'', Recv demo_msg1, Wake, InferDone 1, SendDone]
        init_conn) = []
   \<and> outbox (run demo_lib [Recv ''nul'', ReplySent, Recv demo_msg1, Wake, InferDone 1, SendDone]
        init_conn) = [ErrorReply ''Invalid JSON.'', ErrorReply ''cannot identify image file'']"
  by code_simp

end
